theory Spec2Isabelle
  imports Main "HOL-Library.Stream" "HOL-Library.Sublist"
begin

section \<open>Data model\<close>

text \<open>
  The program is the method \<^verbatim>\<open>Evaluator.predict\<close> of \<^verbatim>\<open>submission-random/run.py\<close>:
  \<^verbatim>\<open>
      regex = re.compile(r"\w+", re.UNICODE)
      for match in regex.finditer(text):
          category = choice(["Q", "A", "O"])
          if category in ("Q", "A"):
              a, b = match.span()
              yield (a, b, category)
  \<close>
  A Python \<^verbatim>\<open>str\<close> is a sequence of Unicode code points, so a document is a list of
  code points and offsets count code points. The categories are the string literals of the
  source. The process-wide generator of the \<^verbatim>\<open>random\<close> module is state that every call of
  \<^verbatim>\<open>choice\<close> advances; it is passed explicitly, as the stream of numbers it will produce.
\<close>

type_synonym codepoint = nat
type_synonym document = "codepoint list"
type_synonym category = string
type_synonym rng = "nat stream"

definition codepoints :: "string \<Rightarrow> document" where
  \<comment> \<open>The code points of an ASCII string literal.\<close>
  "codepoints s = map of_char s"

definition slice :: "document \<Rightarrow> nat \<Rightarrow> nat \<Rightarrow> document" where
  \<comment> \<open>Python's \<^verbatim>\<open>text[a:b]\<close> for \<open>0 \<le> a \<le> b\<close>.\<close>
  "slice text a b = take (b - a) (drop a text)"

section \<open>The tokenizer: \<^verbatim>\<open>regex.finditer(text)\<close> for the pattern \<^verbatim>\<open>\w+\<close>\<close>

text \<open>
  The regular-expression engine is the standard library's, not the repository's. Which code
  points the class \<^verbatim>\<open>\w\<close> contains under \<^verbatim>\<open>re.UNICODE\<close> is a table of that library: it is the
  parameter \<open>w\<close> of every definition below, so each result holds for any classification.
  The scan itself is written out as the documentation of the \<^verbatim>\<open>re\<close> module describes it:
  \<^verbatim>\<open>finditer\<close> searches from left to right and returns the matches that do not overlap, in
  the order found; \<^verbatim>\<open>+\<close> is greedy; the search resumes where the last match ended. It is
  an operational model: that its result is the set of maximal runs is proved, not assumed.
\<close>

definition match_len :: "(codepoint \<Rightarrow> bool) \<Rightarrow> document \<Rightarrow> nat \<Rightarrow> nat" where
  \<comment> \<open>How many code points the greedy \<^verbatim>\<open>\w*\<close> consumes at position \<open>pos\<close>.\<close>
  "match_len w text pos = length (takeWhile w (drop pos text))"

function finditer_from :: "(codepoint \<Rightarrow> bool) \<Rightarrow> document \<Rightarrow> nat \<Rightarrow> (nat \<times> nat) list" where
  "finditer_from w text pos =
     (if length text \<le> pos then []
      else (let n = match_len w text pos in
            if n = 0 then finditer_from w text (pos + 1)
            else (pos, pos + n) # finditer_from w text (pos + n)))"
  by pat_completeness auto
termination
  by (relation "measure (\<lambda>(w, text, pos). length text - pos)") auto

declare finditer_from.simps [simp del]

definition finditer :: "(codepoint \<Rightarrow> bool) \<Rightarrow> document \<Rightarrow> (nat \<times> nat) list" where
  \<comment> \<open>The match objects of \<^verbatim>\<open>regex.finditer(text)\<close>, each given by its start and end.\<close>
  "finditer w text = finditer_from w text 0"

definition span :: "nat \<times> nat \<Rightarrow> int \<times> int" where
  \<comment> \<open>\<^verbatim>\<open>match.span()\<close>: the two offsets as Python integers.\<close>
  "span m = (int (fst m), int (snd m))"

definition ascii_word :: "codepoint \<Rightarrow> bool" where
  \<comment> \<open>The class \<^verbatim>\<open>\w\<close> on the ASCII range: letters, digits and the underscore.\<close>
  "ascii_word c \<longleftrightarrow>
     (48 \<le> c \<and> c \<le> 57) \<or> (65 \<le> c \<and> c \<le> 90) \<or> c = 95 \<or> (97 \<le> c \<and> c \<le> 122)"

section \<open>The classifier: the loop of \<^verbatim>\<open>predict\<close>\<close>

text \<open>
  \<^verbatim>\<open>choice\<close> is the standard library's too. Its documentation gives a random element of a
  sequence that is not empty: the element at an index below the length, computed from the
  generator. The generator is the stream of the numbers it will produce, one per call, and
  the index is that number reduced modulo the length, so that every index in range, and
  nothing else, can be drawn. The loop is the source's: one call of \<^verbatim>\<open>choice\<close> per match, the
  membership test, and the triple appended to what is yielded.
\<close>

definition choice :: "'a list \<Rightarrow> rng \<Rightarrow> 'a \<times> rng" where
  \<comment> \<open>\<^verbatim>\<open>random.choice(seq)\<close> returns \<^verbatim>\<open>seq[i]\<close> for an index \<open>i\<close> below \<^verbatim>\<open>len(seq)\<close> taken from
      the generator, which moves on by one draw.\<close>
  "choice seq g = (seq ! (shd g mod length seq), stl g)"

fun predict_loop :: "(nat \<times> nat) list \<Rightarrow> rng \<Rightarrow> (int \<times> int \<times> category) list \<times> rng" where
  "predict_loop [] g = ([], g)"
| "predict_loop (m # ms) g =
     (case choice [''Q'', ''A'', ''O''] g of (category, g1) \<Rightarrow>
        if category \<in> set [''Q'', ''A''] then
          (case span m of (a, b) \<Rightarrow>
             (case predict_loop ms g1 of (out, g2) \<Rightarrow> ((a, b, category) # out, g2)))
        else predict_loop ms g1)"

definition predict ::
  "(codepoint \<Rightarrow> bool) \<Rightarrow> document \<Rightarrow> rng \<Rightarrow> (int \<times> int \<times> category) list \<times> rng" where
  \<comment> \<open>The triples the generator yields, in order, and the state the random source is left in.\<close>
  "predict w text g = predict_loop (finditer w text) g"

section \<open>Notions of the specification\<close>

definition maximal_run :: "(codepoint \<Rightarrow> bool) \<Rightarrow> document \<Rightarrow> nat \<times> nat \<Rightarrow> bool" where
  \<comment> \<open>\<open>[a, b)\<close> is a maximal contiguous run of word code points of the document: not empty,
      word code points only, and not extensible to the left or to the right.\<close>
  "maximal_run w text r =
     (case r of (a, b) \<Rightarrow>
        a < b \<and> b \<le> length text \<and> (\<forall>i\<in>{a..<b}. w (text ! i)) \<and>
        (a = 0 \<or> \<not> w (text ! (a - 1))) \<and>
        (b = length text \<or> \<not> w (text ! b)))"

definition run_from :: "(codepoint \<Rightarrow> bool) \<Rightarrow> document \<Rightarrow> nat \<Rightarrow> nat \<times> nat \<Rightarrow> bool" where
  \<comment> \<open>The same for the part of the document from \<open>pos\<close> on: the invariant of the scan.\<close>
  "run_from w text pos r =
     (case r of (a, b) \<Rightarrow>
        pos \<le> a \<and> a < b \<and> b \<le> length text \<and> (\<forall>i\<in>{a..<b}. w (text ! i)) \<and>
        (a = pos \<or> \<not> w (text ! (a - 1))) \<and>
        (b = length text \<or> \<not> w (text ! b)))"

definition drawn :: "rng \<Rightarrow> nat \<Rightarrow> category" where
  \<comment> \<open>The value the call of \<^verbatim>\<open>choice\<close> number \<open>i\<close> (from 0) returns when the source starts in \<open>g\<close>.\<close>
  "drawn g i = fst (choice [''Q'', ''A'', ''O''] (sdrop i g))"

definition draws :: "rng \<Rightarrow> nat \<Rightarrow> category list" where
  \<comment> \<open>The values of the first \<open>n\<close> calls of \<^verbatim>\<open>choice\<close>.\<close>
  "draws g n = map (drawn g) [0..<n]"

definition fixed_source :: "nat list \<Rightarrow> rng" where
  \<comment> \<open>A random source forced to produce the listed numbers first, and 0 ever after.\<close>
  "fixed_source ds = ds @- sconst 0"

definition emitted :: "(nat \<times> nat) \<times> category \<Rightarrow> bool" where
  \<comment> \<open>A token and its draw are emitted when the draw is Question or Answer.\<close>
  "emitted p = (snd p = ''Q'' \<or> snd p = ''A'')"

definition triple :: "(nat \<times> nat) \<times> category \<Rightarrow> int \<times> int \<times> category" where
  \<comment> \<open>The triple yielded for a token and its draw.\<close>
  "triple p = (fst (span (fst p)), snd (span (fst p)), snd p)"

definition position :: "int \<times> int \<times> category \<Rightarrow> int \<times> int" where
  \<comment> \<open>A yielded triple restricted to its position.\<close>
  "position t = (fst t, fst (snd t))"

section \<open>The greedy match\<close>

lemma match_len_le: "pos \<le> length text \<Longrightarrow> pos + match_len w text pos \<le> length text"
proof -
  assume "pos \<le> length text"
  have "match_len w text pos \<le> length (drop pos text)"
    unfolding match_len_def by (rule length_takeWhile_le)
  with \<open>pos \<le> length text\<close> show ?thesis by simp
qed

lemma match_len_word:
  assumes "pos \<le> i" "i < pos + match_len w text pos"
  shows "w (text ! i)"
proof -
  let ?d = "drop pos text"
  have lt: "i - pos < length (takeWhile w ?d)"
    using assms by (simp add: match_len_def)
  then have "takeWhile w ?d ! (i - pos) = ?d ! (i - pos)"
    by (rule takeWhile_nth)
  moreover have "takeWhile w ?d ! (i - pos) \<in> set (takeWhile w ?d)"
    using lt by (rule nth_mem)
  ultimately have "w (?d ! (i - pos))"
    by (auto dest: set_takeWhileD)
  moreover have "i < length text"
    using lt length_takeWhile_le [of w ?d] assms(1) by simp
  ultimately show ?thesis using assms(1) by simp
qed

lemma match_len_stop:
  assumes "pos + match_len w text pos < length text"
  shows "\<not> w (text ! (pos + match_len w text pos))"
proof -
  let ?d = "drop pos text"
  have "length (takeWhile w ?d) < length ?d"
    using assms by (simp add: match_len_def)
  then have "\<not> w (?d ! length (takeWhile w ?d))"
    by (rule nth_length_takeWhile)
  then show ?thesis using assms by (simp add: match_len_def)
qed

lemma match_len_zero:
  assumes "pos < length text"
  shows "match_len w text pos = 0 \<longleftrightarrow> \<not> w (text ! pos)"
proof
  assume "match_len w text pos = 0"
  then show "\<not> w (text ! pos)"
    using match_len_stop [of pos w "text"] assms by simp
next
  assume nw: "\<not> w (text ! pos)"
  show "match_len w text pos = 0"
  proof (rule ccontr)
    assume "match_len w text pos \<noteq> 0"
    then have "pos < pos + match_len w text pos" by simp
    then show False
      using match_len_word [of pos pos w "text"] nw by simp
  qed
qed

section \<open>The scan\<close>

lemma finditer_from_end:
  "length text \<le> pos \<Longrightarrow> finditer_from w text pos = []"
  by (simp add: finditer_from.simps [of w "text" pos])

lemma finditer_from_skip:
  "pos < length text \<Longrightarrow> match_len w text pos = 0 \<Longrightarrow>
   finditer_from w text pos = finditer_from w text (pos + 1)"
  by (simp add: finditer_from.simps [of w "text" pos])

lemma finditer_from_take:
  "pos < length text \<Longrightarrow> match_len w text pos \<noteq> 0 \<Longrightarrow>
   finditer_from w text pos =
     (pos, pos + match_len w text pos) # finditer_from w text (pos + match_len w text pos)"
  by (simp add: finditer_from.simps [of w "text" pos] Let_def)

lemma run_from_skip:
  assumes "pos < length text" "\<not> w (text ! pos)"
  shows "run_from w text pos r = run_from w text (pos + 1) r"
proof (cases r)
  case (Pair a b)
  show ?thesis
  proof (cases "a = pos")
    case True
    then show ?thesis using assms Pair by (auto simp: run_from_def)
  next
    case False
    then show ?thesis using assms Pair by (auto simp: run_from_def)
  qed
qed

lemma run_from_first:
  assumes "pos < length text" "match_len w text pos \<noteq> 0"
  shows "run_from w text pos (pos, pos + match_len w text pos)"
  using assms match_len_le [of pos "text" w] match_len_word [of pos _ w "text"]
    match_len_stop [of pos w "text"]
  by (auto simp: run_from_def)

lemma run_from_start_unique:
  assumes "run_from w text pos (pos, b)"
  shows "b = pos + match_len w text pos"
proof (rule ccontr)
  let ?e = "pos + match_len w text pos"
  assume ne: "b \<noteq> ?e"
  have b: "pos < b" "b \<le> length text" "\<forall>i\<in>{pos..<b}. w (text ! i)"
    "b = length text \<or> \<not> w (text ! b)"
    using assms by (auto simp: run_from_def)
  have e: "?e \<le> length text" using b match_len_le [of pos "text" w] by simp
  show False
  proof (cases "b < ?e")
    case True
    then have "w (text ! b)" using b(1) match_len_word [of pos b w "text"] by simp
    with b(4) True e show False by simp
  next
    case False
    with ne have lt: "?e < b" by simp
    then have "w (text ! ?e)" using b(3) by simp
    moreover have "\<not> w (text ! ?e)" using lt b(2) match_len_stop [of pos w "text"] by simp
    ultimately show False by simp
  qed
qed

lemma run_from_take:
  assumes "pos < length text" "match_len w text pos \<noteq> 0"
  shows "run_from w text pos r \<longleftrightarrow>
         r = (pos, pos + match_len w text pos) \<or> run_from w text (pos + match_len w text pos) r"
proof (cases r)
  case (Pair a b)
  let ?e = "pos + match_len w text pos"
  have e: "?e \<le> length text" using assms(1) match_len_le [of pos "text" w] by simp
  show ?thesis
  proof
    assume r: "run_from w text pos r"
    show "r = (pos, ?e) \<or> run_from w text ?e r"
    proof (cases "a = pos")
      case True
      with r Pair run_from_start_unique [of w "text" pos b] show ?thesis by simp
    next
      case False
      with r Pair have nw: "\<not> w (text ! (a - 1))" and gt: "pos < a"
        by (auto simp: run_from_def)
      have "?e \<le> a - 1"
      proof (rule ccontr)
        assume "\<not> ?e \<le> a - 1"
        with gt match_len_word [of pos "a - 1" w "text"] nw show False by simp
      qed
      with gt have "?e < a" by simp
      with r Pair show ?thesis by (auto simp: run_from_def)
    qed
  next
    assume "r = (pos, ?e) \<or> run_from w text ?e r"
    then show "run_from w text pos r"
    proof
      assume "r = (pos, ?e)"
      with run_from_first [OF assms] show ?thesis by simp
    next
      assume r: "run_from w text ?e r"
      have "a \<noteq> ?e"
      proof
        assume "a = ?e"
        with r Pair have "w (text ! ?e)" "?e < length text" by (auto simp: run_from_def)
        with match_len_stop [of pos w "text"] show False by simp
      qed
      with r Pair assms show ?thesis by (auto simp: run_from_def)
    qed
  qed
qed

lemma finditer_from_runs: "set (finditer_from w text pos) = {r. run_from w text pos r}"
proof (induction w "text" pos rule: finditer_from.induct)
  case (1 w "text" pos)
  show ?case
  proof (cases "length text \<le> pos")
    case True
    then show ?thesis
      by (auto simp: finditer_from_end run_from_def)
  next
    case False
    then have lt: "pos < length text" by simp
    show ?thesis
    proof (cases "match_len w text pos = 0")
      case True
      then have nw: "\<not> w (text ! pos)" using lt by (simp add: match_len_zero)
      have "set (finditer_from w text pos) = set (finditer_from w text (pos + 1))"
        using lt True by (simp add: finditer_from_skip)
      also have "\<dots> = {r. run_from w text (pos + 1) r}"
        using "1.IH"(1) [OF False refl True] .
      also have "\<dots> = {r. run_from w text pos r}"
        using lt nw run_from_skip [of pos "text" w] by simp
      finally show ?thesis .
    next
      case nz: False
      let ?e = "pos + match_len w text pos"
      have "set (finditer_from w text pos) = insert (pos, ?e) (set (finditer_from w text ?e))"
        using lt nz by (simp add: finditer_from_take)
      also have "set (finditer_from w text ?e) = {r. run_from w text ?e r}"
        using "1.IH"(2) [OF False refl nz] .
      also have "insert (pos, ?e) {r. run_from w text ?e r} = {r. run_from w text pos r}"
        using run_from_take [OF lt nz] by auto
      finally show ?thesis .
    qed
  qed
qed

lemma maximal_run_eq: "maximal_run w text r = run_from w text 0 r"
  by (simp add: maximal_run_def run_from_def)


lemma finditer_from_lower:
  "r \<in> set (finditer_from w text pos) \<Longrightarrow> pos \<le> fst r \<and> fst r < snd r \<and> snd r \<le> length text"
  by (cases r) (simp add: finditer_from_runs run_from_def)

lemma finditer_from_sorted:
  "sorted_wrt (\<lambda>p q. snd p \<le> fst q) (finditer_from w text pos)"
proof (induction w "text" pos rule: finditer_from.induct)
  case (1 w "text" pos)
  show ?case
  proof (cases "length text \<le> pos")
    case True
    then show ?thesis by (simp add: finditer_from_end)
  next
    case False
    then have lt: "pos < length text" by simp
    show ?thesis
    proof (cases "match_len w text pos = 0")
      case True
      with lt "1.IH"(1) [OF False refl True] show ?thesis
        by (simp add: finditer_from_skip)
    next
      case nz: False
      with lt "1.IH"(2) [OF False refl nz] show ?thesis
        by (auto simp: finditer_from_take dest: finditer_from_lower)
    qed
  qed
qed

lemma finditer_from_length:
  "length (finditer_from w text pos) \<le> length text - pos"
proof (induction w "text" pos rule: finditer_from.induct)
  case (1 w "text" pos)
  show ?case
  proof (cases "length text \<le> pos")
    case True
    then show ?thesis by (simp add: finditer_from_end)
  next
    case False
    then have lt: "pos < length text" by simp
    show ?thesis
    proof (cases "match_len w text pos = 0")
      case True
      with lt "1.IH"(1) [OF False refl True] show ?thesis
        by (simp add: finditer_from_skip)
    next
      case nz: False
      have "pos + match_len w text pos \<le> length text"
        using lt match_len_le [of pos "text" w] by simp
      with nz lt "1.IH"(2) [OF False refl nz] show ?thesis
        by (simp add: finditer_from_take)
    qed
  qed
qed

lemma finditer_bounds:
  "r \<in> set (finditer w text) \<Longrightarrow> fst r < snd r \<and> snd r \<le> length text"
  unfolding finditer_def by (drule finditer_from_lower) simp

lemma finditer_sorted: "sorted_wrt (\<lambda>p q. snd p \<le> fst q) (finditer w text)"
  unfolding finditer_def by (rule finditer_from_sorted)

lemma finditer_sorted_strict:
  "sorted_wrt (\<lambda>p q. fst p < fst q \<and> snd p < snd q) (finditer w text)"
proof -
  have "sorted_wrt (\<lambda>p q. fst p < fst q \<and> snd p < snd q) (finditer w text)"
    if "sorted_wrt (\<lambda>p q. snd p \<le> fst q) (finditer w text)"
    using that
  proof (rule sorted_wrt_mono_rel [rotated])
    fix p q
    assume "p \<in> set (finditer w text)" "q \<in> set (finditer w text)" "snd p \<le> fst q"
    then show "fst p < fst q \<and> snd p < snd q"
      using finditer_bounds [of p w "text"] finditer_bounds [of q w "text"] by simp
  qed
  then show ?thesis using finditer_sorted by blast
qed

lemma sorted_wrt_irrefl_distinct:
  "sorted_wrt R xs \<Longrightarrow> (\<And>x. \<not> R x x) \<Longrightarrow> distinct xs"
  by (induction xs) auto

lemma finditer_distinct: "distinct (finditer w text)"
  using finditer_sorted_strict [of w "text"]
  by (rule sorted_wrt_irrefl_distinct) simp

section \<open>Properties of the tokenizer\<close>

text \<open>
  Claim C1 (tokenizer fidelity). For every document, the spans the scan for \<^verbatim>\<open>\w+\<close> produces
  are exactly the maximal contiguous runs of word code points of the document, each reported
  once: no run is split or merged, and no span contains a code point that is not a word
  code point.
\<close>

theorem tokenizer_fidelity:
  "set (finditer w text) = {r. maximal_run w text r} \<and> distinct (finditer w text)"
  by (simp add: finditer_def finditer_from_runs maximal_run_eq
      finditer_distinct [unfolded finditer_def])

theorem tokenizer_fidelity_witness:
  "maximal_run ascii_word (codepoints ''ab c'') (0, 2) \<and>
   (0, 2) \<in> set (finditer ascii_word (codepoints ''ab c'')) \<and>
   \<not> maximal_run ascii_word (codepoints ''ab c'') (0, 1) \<and>
   (0, 1) \<notin> set (finditer ascii_word (codepoints ''ab c''))"
proof -
  have yes: "maximal_run ascii_word (codepoints ''ab c'') (0, 2)"
    by code_simp
  have no: "\<not> maximal_run ascii_word (codepoints ''ab c'') (0, 1)"
    by code_simp
  show ?thesis
    using yes no tokenizer_fidelity [of ascii_word "codepoints ''ab c''"] by simp
qed

text \<open>
  Claim C6 (tokenizer span ordering). For every document, the tokenizer's output is a finite
  sequence with at most as many spans as the document has code points; each span's start is
  at or after the end of every earlier span, starts and ends increase strictly, and no span
  is empty.
\<close>

theorem tokenizer_ordering:
  "length (finditer w text) \<le> length text \<and>
   sorted_wrt (\<lambda>p q. snd p \<le> fst q) (finditer w text) \<and>
   sorted_wrt (\<lambda>p q. fst p < fst q \<and> snd p < snd q) (finditer w text) \<and>
   (\<forall>r\<in>set (finditer w text). fst r < snd r)"
proof -
  have "length (finditer w text) \<le> length text"
    using finditer_from_length [of w "text" 0] by (simp add: finditer_def)
  moreover have "\<forall>r\<in>set (finditer w text). fst r < snd r"
    using finditer_bounds [of _ w "text"] by blast
  ultimately show ?thesis
    using finditer_sorted [of w "text"] finditer_sorted_strict [of w "text"] by simp
qed

theorem tokenizer_ordering_witness:
  "finditer ascii_word (codepoints ''ab c'') = [(0, 2), (3, 4)] \<and>
   length (finditer ascii_word (codepoints ''ab c'')) \<le> length (codepoints ''ab c'') \<and>
   sorted_wrt (\<lambda>p q. snd p \<le> fst q) (finditer ascii_word (codepoints ''ab c'')) \<and>
   sorted_wrt (\<lambda>p q. fst p < fst q \<and> snd p < snd q)
     (finditer ascii_word (codepoints ''ab c'')) \<and>
   (3, 4) \<in> set (finditer ascii_word (codepoints ''ab c'')) \<and>
   fst (finditer ascii_word (codepoints ''ab c'') ! 1) <
     snd (finditer ascii_word (codepoints ''ab c'') ! 1)"
proof -
  have toks: "finditer ascii_word (codepoints ''ab c'') = [(0, 2), (3, 4)]"
    by code_simp
  then have "finditer ascii_word (codepoints ''ab c'') ! 1
      \<in> set (finditer ascii_word (codepoints ''ab c''))"
    by simp
  with toks tokenizer_ordering [of ascii_word "codepoints ''ab c''"] show ?thesis
    by auto
qed

section \<open>The loop over the matches\<close>

lemma drawn_0: "drawn g 0 = fst (choice [''Q'', ''A'', ''O''] g)"
  by (simp add: drawn_def)

lemma drawn_Suc: "drawn g (Suc i) = drawn (stl g) i"
  by (simp add: drawn_def)

lemma map_drawn_Suc:
  "map (drawn g) [0..<Suc n] = drawn g 0 # map (drawn (stl g)) [0..<n]"
proof -
  have "[0..<Suc n] = 0 # map Suc [0..<n]"
    by (simp add: upt_conv_Cons map_Suc_upt del: upt_Suc)
  then show ?thesis by (simp add: drawn_Suc del: upt_Suc)
qed

lemma predict_loop_eq:
  "predict_loop ms g =
     (map triple (filter emitted (zip ms (map (drawn g) [0..<length ms]))),
      sdrop (length ms) g)"
proof (induction ms arbitrary: g)
  case Nil
  show ?case by simp
next
  case (Cons m ms)
  have ch: "choice [''Q'', ''A'', ''O''] g = (drawn g 0, stl g)"
    by (simp add: choice_def drawn_def)
  show ?case
    by (simp add: ch Cons.IH map_drawn_Suc emitted_def triple_def span_def del: upt_Suc)
qed

section \<open>Closed form of the loop\<close>

lemma predict_eq:
  "predict w text g =
     (map triple (filter emitted (zip (finditer w text) (draws g (length (finditer w text))))),
      sdrop (length (finditer w text)) g)"
  by (simp add: predict_def predict_loop_eq draws_def)

lemma length_draws: "length (draws g n) = n"
  by (simp add: draws_def)

lemma nth_draws: "i < n \<Longrightarrow> draws g n ! i = drawn g i"
  by (simp add: draws_def)

lemma drawn_cases: "drawn g i = ''Q'' \<or> drawn g i = ''A'' \<or> drawn g i = ''O''"
proof -
  have "shd (sdrop i g) mod 3 < 3" by simp
  then have "shd (sdrop i g) mod 3 = 0 \<or> shd (sdrop i g) mod 3 = 1 \<or> shd (sdrop i g) mod 3 = 2"
    by arith
  then show ?thesis by (auto simp: drawn_def choice_def)
qed

lemma position_triple: "position (triple p) = span (fst p)"
  by (simp add: position_def triple_def)

lemma positions_eq:
  "map position (fst (predict w text g)) =
     map span (map fst (filter emitted (zip (finditer w text) (draws g (length (finditer w text))))))"
  by (simp add: predict_eq position_triple)

lemma subseq_tokens:
  "subseq (map fst (filter emitted (zip ms (draws g (length ms))))) ms"
proof -
  have "subseq (map fst (filter emitted (zip ms (draws g (length ms)))))
          (map fst (zip ms (draws g (length ms))))"
    by (rule subseq_map) simp
  then show ?thesis by (simp add: length_draws)
qed

lemma subseq_sorted_wrt:
  "subseq xs ys \<Longrightarrow> sorted_wrt R ys \<Longrightarrow> sorted_wrt R xs"
proof (induction rule: list_emb.induct)
  case (list_emb_Nil ys)
  show ?case by simp
next
  case (list_emb_Cons xs ys y)
  then show ?case by simp
next
  case (list_emb_Cons2 x y xs ys)
  then have "set xs \<subseteq> set ys" by (auto elim: list_emb_set)
  with list_emb_Cons2 show ?case by auto
qed

lemma subseq_set_mono: "subseq xs ys \<Longrightarrow> set xs \<subseteq> set ys"
  by (auto elim: list_emb_set)

lemma positions_subseq:
  "subseq (map position (fst (predict w text g))) (map span (finditer w text))"
  unfolding positions_eq by (rule subseq_map) (rule subseq_tokens)

lemma predict_position:
  assumes "t \<in> set (fst (predict w text g))"
  obtains m where "m \<in> set (finditer w text)" "position t = span m"
proof -
  have "position t \<in> set (map position (fst (predict w text g)))"
    using assms by simp
  also have "\<dots> \<subseteq> set (map span (finditer w text))"
    using positions_subseq by (rule subseq_set_mono)
  finally show thesis using that by auto
qed

lemma finditer_no_word:
  assumes "\<forall>c\<in>set text. \<not> w c"
  shows "finditer w text = []"
proof -
  have "\<not> maximal_run w text r" for r
  proof (cases r)
    case (Pair a b)
    show ?thesis
    proof
      assume "maximal_run w text r"
      with Pair have "a < b" "b \<le> length text" "w (text ! a)"
        by (auto simp: maximal_run_def)
      with assms show False by auto
    qed
  qed
  then have "set (finditer w text) = {}"
    by (simp add: finditer_def finditer_from_runs maximal_run_eq [symmetric])
  then show ?thesis by simp
qed

lemma match_len_cong:
  assumes "\<forall>c\<in>set text. w c = w' c"
  shows "match_len w text pos = match_len w' text pos"
proof -
  have "takeWhile w (drop pos text) = takeWhile w' (drop pos text)"
  proof (rule takeWhile_cong [OF refl])
    fix c
    assume "c \<in> set (drop pos text)"
    then have "c \<in> set text" by (rule in_set_dropD)
    with assms show "w c = w' c" by simp
  qed
  then show ?thesis by (simp add: match_len_def)
qed

lemma finditer_from_cong:
  assumes "\<forall>c\<in>set text. w c = w' c"
  shows "finditer_from w text pos = finditer_from w' text pos"
  using assms
proof (induction w "text" pos rule: finditer_from.induct)
  case (1 w "text" pos)
  have ml: "match_len w' text pos = match_len w text pos"
    using "1.prems" by (simp add: match_len_cong)
  show ?case
  proof (cases "length text \<le> pos")
    case True
    then show ?thesis by (simp add: finditer_from_end)
  next
    case False
    then have lt: "pos < length text" by simp
    show ?thesis
    proof (cases "match_len w text pos = 0")
      case True
      with lt ml "1.IH"(1) [OF False refl True "1.prems"] show ?thesis
        by (simp add: finditer_from_skip)
    next
      case nz: False
      with lt ml "1.IH"(2) [OF False refl nz "1.prems"] show ?thesis
        by (simp add: finditer_from_take)
    qed
  qed
qed

lemma finditer_cong:
  "\<forall>c\<in>set text. w c = w' c \<Longrightarrow> finditer w text = finditer w' text"
  by (simp add: finditer_def finditer_from_cong)

lemma predict_mem_iff:
  assumes i: "i < length (finditer w text)"
  shows "(fst (span (finditer w text ! i)), snd (span (finditer w text ! i)), c)
           \<in> set (fst (predict w text g))
         \<longleftrightarrow> c = drawn g i \<and> (c = ''Q'' \<or> c = ''A'')"
    (is "?t \<in> _ \<longleftrightarrow> ?rhs")
proof
  let ?toks = "finditer w text"
  let ?n = "length ?toks"
  assume "?t \<in> set (fst (predict w text g))"
  then obtain p where p: "p \<in> set (zip ?toks (draws g ?n))" "emitted p" "triple p = ?t"
    by (auto simp: predict_eq)
  from p(1) obtain j where j: "j < ?n" "fst p = ?toks ! j" "snd p = draws g ?n ! j"
    by (auto simp: in_set_zip length_draws)
  from p(3) j(2) have "span (?toks ! j) = span (?toks ! i)"
    by (simp add: triple_def prod_eq_iff)
  then have "?toks ! j = ?toks ! i"
    by (simp add: span_def prod_eq_iff)
  with j(1) i have "j = i"
    using finditer_distinct [of w "text"] by (simp add: nth_eq_iff_index_eq)
  with j p(2,3) i show ?rhs
    by (auto simp: nth_draws triple_def emitted_def)
next
  let ?toks = "finditer w text"
  let ?n = "length ?toks"
  assume r: ?rhs
  have "(?toks ! i, drawn g i) \<in> set (zip ?toks (draws g ?n))"
    using i by (auto simp: in_set_zip length_draws nth_draws)
  moreover have "emitted (?toks ! i, drawn g i)"
    using r by (auto simp: emitted_def)
  moreover have "triple (?toks ! i, drawn g i) = ?t"
    using r by (simp add: triple_def)
  ultimately show "?t \<in> set (fst (predict w text g))"
    by (force simp: predict_eq)
qed

section \<open>Evaluation on fixed inputs\<close>

lemma tokens_ab_c: "finditer ascii_word (codepoints ''ab c'') = [(0, 2), (3, 4)]"
  by code_simp

lemma tokens_sky:
  "finditer ascii_word (codepoints ''Is sky blue? Yes.'') = [(0, 2), (3, 6), (7, 11), (13, 16)]"
  by code_simp

lemma drawn_fixed:
  "i < length ds \<Longrightarrow> drawn (fixed_source ds) i = [''Q'', ''A'', ''O''] ! (ds ! i mod 3)"
  by (simp add: drawn_def choice_def fixed_source_def sdrop_shift flip: snth.simps(1) sdrop_snth)

lemma draws_fixed:
  "draws (fixed_source ds) (length ds) = map (\<lambda>r. [''Q'', ''A'', ''O''] ! (r mod 3)) ds"
  by (rule nth_equalityI) (simp_all add: length_draws nth_draws drawn_fixed)

lemma sdrop_fixed: "sdrop (length ds) (fixed_source ds) = sconst 0"
  by (simp add: fixed_source_def sdrop_shift)

lemma predict_out:
  assumes "finditer w text = toks" and "draws g (length toks) = ds"
  shows "fst (predict w text g) = map triple (filter emitted (zip toks ds))"
  using assms by (simp add: predict_eq)

lemma predict_rest: "snd (predict w text g) = sdrop (length (finditer w text)) g"
  by (simp add: predict_eq)

lemma out_ab_c:
  "fst (predict ascii_word (codepoints ''ab c'') (fixed_source [0, 2])) = [(0, 2, ''Q'')]"
proof -
  have "draws (fixed_source [0, 2]) (length [(0::nat, 2::nat), (3, 4)]) = [''Q'', ''O'']"
    using draws_fixed [of "[0, 2]"] by simp
  from predict_out [OF tokens_ab_c this] show ?thesis
    by (simp add: emitted_def triple_def span_def)
qed

lemma out_sky:
  "fst (predict ascii_word (codepoints ''Is sky blue? Yes.'') (fixed_source [0, 2, 4, 2])) =
     [(0, 2, ''Q''), (7, 11, ''A'')]"
proof -
  have "draws (fixed_source [0, 2, 4, 2]) (length [(0::nat, 2::nat), (3, 6), (7, 11), (13, 16)])
      = [''Q'', ''O'', ''A'', ''O'']"
    using draws_fixed [of "[0, 2, 4, 2]"] by simp
  from predict_out [OF tokens_sky this] show ?thesis
    by (simp add: emitted_def triple_def span_def)
qed

lemma drawn_sky:
  "drawn (fixed_source [0, 2, 4, 2]) 0 = ''Q''" "drawn (fixed_source [0, 2, 4, 2]) 1 = ''O''"
  "drawn (fixed_source [0, 2, 4, 2]) 2 = ''A''" "drawn (fixed_source [0, 2, 4, 2]) 3 = ''O''"
  by (simp_all add: drawn_fixed)

lemma scenario_tokens:
  assumes "\<forall>c<128. w c = ascii_word c"
  shows "finditer w (codepoints ''Is sky blue? Yes.'') = [(0, 2), (3, 6), (7, 11), (13, 16)]"
proof -
  let ?d = "codepoints ''Is sky blue? Yes.''"
  have "\<forall>c\<in>set ?d. c < 128"
    by (simp add: codepoints_def)
  with assms have "\<forall>c\<in>set ?d. w c = ascii_word c"
    by blast
  then have "finditer w ?d = finditer ascii_word ?d"
    by (rule finditer_cong)
  then show ?thesis
    by (simp only: tokens_sky)
qed

lemma draws_four:
  "draws g (length [a, b, c, d]) = [drawn g 0, drawn g 1, drawn g 2, drawn g 3]"
  by (rule nth_equalityI)
    (auto simp: length_draws nth_draws less_Suc_eq nth_Cons' numeral_2_eq_2 numeral_3_eq_3)

section \<open>Properties of \<^verbatim>\<open>predict\<close>\<close>

text \<open>
  The results below are about a run of the generator that is consumed to its end: \<open>fst\<close> of
  \<open>predict\<close> is the sequence of yielded triples, \<open>snd\<close> the random source afterwards.
\<close>

text \<open>
  Claim C2 (decision rule and output shape). For every document and every candidate token
  span, \<^verbatim>\<open>predict\<close> draws exactly one value, and that value is one of \<^verbatim>\<open>"Q"\<close>, \<^verbatim>\<open>"A"\<close>, \<^verbatim>\<open>"O"\<close>;
  the triple of the token's start, its end and the drawn value is yielded if and only if the
  drawn value is \<^verbatim>\<open>"Q"\<close> or \<^verbatim>\<open>"A"\<close>; the output is exactly the tokens whose draw is \<^verbatim>\<open>"Q"\<close> or
  \<^verbatim>\<open>"A"\<close>, in order, each with its draw; and no yielded triple carries \<^verbatim>\<open>"O"\<close>.
\<close>

theorem decision_rule:
  "(\<forall>i<length (finditer w text). drawn g i \<in> {''Q'', ''A'', ''O''}) \<and>
   (\<forall>i<length (finditer w text).
      triple (finditer w text ! i, drawn g i) \<in> set (fst (predict w text g))
        \<longleftrightarrow> drawn g i = ''Q'' \<or> drawn g i = ''A'') \<and>
   fst (predict w text g) =
     map triple (filter emitted
       (zip (finditer w text) (map (drawn g) [0..<length (finditer w text)]))) \<and>
   snd (predict w text g) = sdrop (length (finditer w text)) g \<and>
   (\<forall>(a, b, c)\<in>set (fst (predict w text g)). c = ''Q'' \<or> c = ''A'')"
proof -
  have 1: "\<forall>i<length (finditer w text). drawn g i \<in> {''Q'', ''A'', ''O''}"
    using drawn_cases [of g] by simp
  have 2: "\<forall>i<length (finditer w text).
      triple (finditer w text ! i, drawn g i) \<in> set (fst (predict w text g))
        \<longleftrightarrow> drawn g i = ''Q'' \<or> drawn g i = ''A''"
    using predict_mem_iff [of _ w "text" _ g] by (simp add: triple_def)
  have 3: "\<forall>(a, b, c)\<in>set (fst (predict w text g)). c = ''Q'' \<or> c = ''A''"
    by (auto simp: predict_eq triple_def emitted_def)
  from 1 2 3 show ?thesis by (simp add: predict_eq draws_def)
qed

theorem decision_rule_witness:
  "drawn (fixed_source [0, 2]) 0 = ''Q'' \<and> drawn (fixed_source [0, 2]) 1 = ''O'' \<and>
   triple (finditer ascii_word (codepoints ''ab c'') ! 0, drawn (fixed_source [0, 2]) 0)
     \<in> set (fst (predict ascii_word (codepoints ''ab c'') (fixed_source [0, 2]))) \<and>
   triple (finditer ascii_word (codepoints ''ab c'') ! 1, drawn (fixed_source [0, 2]) 1)
     \<notin> set (fst (predict ascii_word (codepoints ''ab c'') (fixed_source [0, 2]))) \<and>
   fst (predict ascii_word (codepoints ''ab c'') (fixed_source [0, 2])) = [(0, 2, ''Q'')]"
proof -
  let ?g = "fixed_source [0, 2]"
  let ?d = "codepoints ''ab c''"
  have d: "drawn ?g 0 = ''Q''" "drawn ?g 1 = ''O''"
    by (simp_all add: drawn_fixed)
  have n: "0 < length (finditer ascii_word ?d)" "1 < length (finditer ascii_word ?d)"
    by (simp_all add: tokens_ab_c)
  have iff: "triple (finditer ascii_word ?d ! i, drawn ?g i) \<in> set (fst (predict ascii_word ?d ?g))
      \<longleftrightarrow> drawn ?g i = ''Q'' \<or> drawn ?g i = ''A''"
    if "i < length (finditer ascii_word ?d)" for i
    using that decision_rule [of ascii_word ?d ?g] by blast
  have "triple (finditer ascii_word ?d ! 0, drawn ?g 0) \<in> set (fst (predict ascii_word ?d ?g))"
    using iff [OF n(1)] d(1) by simp
  moreover have "triple (finditer ascii_word ?d ! 1, drawn ?g 1)
      \<notin> set (fst (predict ascii_word ?d ?g))"
    using iff [OF n(2)] d(2) by simp
  ultimately show ?thesis using d out_ab_c by blast
qed

text \<open>
  Claim C3 (concrete scenario), as amended. The document \<^verbatim>\<open>"Is sky blue? Yes."\<close> tokenizes to
  exactly the four spans \<open>(0, 2)\<close>, \<open>(3, 6)\<close>, \<open>(7, 11)\<close>, \<open>(13, 16)\<close>, which cover \<^verbatim>\<open>Is\<close>, \<^verbatim>\<open>sky\<close>,
  \<^verbatim>\<open>blue\<close> and \<^verbatim>\<open>Yes\<close>; when the draw for token 1 is Question, the draw for token 3 is Answer
  and the draws for tokens 2 and 4 are Other, \<^verbatim>\<open>predict\<close> yields exactly
  \<open>[(0, 2, "Q"), (7, 11, "A")]\<close>: token 3 is \<^verbatim>\<open>blue\<close>, at offsets 7 to 11. The word
  classification is any one that agrees with letters, digits and underscore on ASCII.
\<close>

theorem concrete_scenario:
  assumes "\<forall>c<128. w c = ascii_word c"
    and "drawn g 0 = ''Q''" and "drawn g 1 = ''O''" and "drawn g 2 = ''A''" and "drawn g 3 = ''O''"
  shows "finditer w (codepoints ''Is sky blue? Yes.'') = [(0, 2), (3, 6), (7, 11), (13, 16)] \<and>
         map (\<lambda>(a, b). slice (codepoints ''Is sky blue? Yes.'') a b)
           (finditer w (codepoints ''Is sky blue? Yes.''))
           = map codepoints [''Is'', ''sky'', ''blue'', ''Yes''] \<and>
         fst (predict w (codepoints ''Is sky blue? Yes.'') g) = [(0, 2, ''Q''), (7, 11, ''A'')]"
proof -
  let ?d = "codepoints ''Is sky blue? Yes.''"
  let ?toks = "[(0::nat, 2::nat), (3, 6), (7, 11), (13, 16)]"
  have toks: "finditer w ?d = ?toks"
    using assms(1) by (rule scenario_tokens)
  have "map (\<lambda>(a, b). slice ?d a b) ?toks = map codepoints [''Is'', ''sky'', ''blue'', ''Yes'']"
    by (simp add: slice_def codepoints_def)
  then have words: "map (\<lambda>(a, b). slice ?d a b) (finditer w ?d)
      = map codepoints [''Is'', ''sky'', ''blue'', ''Yes'']"
    by (simp only: toks)
  have "draws g (length ?toks) = [''Q'', ''O'', ''A'', ''O'']"
    by (simp only: draws_four assms(2-5))
  from predict_out [OF toks this]
  have "fst (predict w ?d g) = [(0, 2, ''Q''), (7, 11, ''A'')]"
    by (simp add: emitted_def triple_def span_def)
  with toks words show ?thesis by blast
qed

theorem concrete_scenario_witness:
  "drawn (fixed_source [0, 2, 4, 2]) 0 = ''Q'' \<and> drawn (fixed_source [0, 2, 4, 2]) 1 = ''O'' \<and>
   drawn (fixed_source [0, 2, 4, 2]) 2 = ''A'' \<and> drawn (fixed_source [0, 2, 4, 2]) 3 = ''O'' \<and>
   finditer ascii_word (codepoints ''Is sky blue? Yes.'') = [(0, 2), (3, 6), (7, 11), (13, 16)] \<and>
   fst (predict ascii_word (codepoints ''Is sky blue? Yes.'') (fixed_source [0, 2, 4, 2]))
     = [(0, 2, ''Q''), (7, 11, ''A'')]"
proof -
  have w: "\<forall>c<128. ascii_word c = ascii_word c"
    by simp
  from concrete_scenario [OF w drawn_sky] drawn_sky show ?thesis by blast
qed

text \<open>
  The scenario as the specification words it ends in \<open>(13, 16, "A")\<close>, the span of \<^verbatim>\<open>Yes\<close>,
  which is token 4. With the draws it fixes, the code does not yield that sequence.
\<close>

theorem concrete_scenario_counterexample:
  "drawn (fixed_source [0, 2, 4, 2]) 0 = ''Q'' \<and> drawn (fixed_source [0, 2, 4, 2]) 1 = ''O'' \<and>
   drawn (fixed_source [0, 2, 4, 2]) 2 = ''A'' \<and> drawn (fixed_source [0, 2, 4, 2]) 3 = ''O'' \<and>
   finditer ascii_word (codepoints ''Is sky blue? Yes.'') = [(0, 2), (3, 6), (7, 11), (13, 16)] \<and>
   fst (predict ascii_word (codepoints ''Is sky blue? Yes.'') (fixed_source [0, 2, 4, 2]))
     \<noteq> [(0, 2, ''Q''), (13, 16, ''A'')]"
proof -
  have "fst (predict ascii_word (codepoints ''Is sky blue? Yes.'') (fixed_source [0, 2, 4, 2]))
     \<noteq> [(0, 2, ''Q''), (13, 16, ''A'')]"
    by (simp add: out_sky)
  with drawn_sky tokens_sky show ?thesis by blast
qed

text \<open>
  The sequence \<open>[(0, 2, "Q"), (13, 16, "A")]\<close> is what the code yields when Answer is drawn
  for token 4 and Other for tokens 2 and 3.
\<close>

lemma scenario_answer_for_fourth:
  assumes "\<forall>c<128. w c = ascii_word c"
    and "drawn g 0 = ''Q''" and "drawn g 1 = ''O''" and "drawn g 2 = ''O''" and "drawn g 3 = ''A''"
  shows "fst (predict w (codepoints ''Is sky blue? Yes.'') g) = [(0, 2, ''Q''), (13, 16, ''A'')]"
proof -
  let ?d = "codepoints ''Is sky blue? Yes.''"
  let ?toks = "[(0::nat, 2::nat), (3, 6), (7, 11), (13, 16)]"
  have toks: "finditer w ?d = ?toks"
    using assms(1) by (rule scenario_tokens)
  have "draws g (length ?toks) = [''Q'', ''O'', ''O'', ''A'']"
    by (simp only: draws_four assms(2-5))
  from predict_out [OF toks this] show ?thesis
    by (simp add: emitted_def triple_def span_def)
qed

text \<open>
  Claim C4 (classifier subsequence law). For every document and every realization of the
  random draws, the positions of the yielded triples, in order, form a subsequence of the
  tokenizer's spans over that document: no span is invented and none is reordered.
\<close>

theorem classifier_subsequence:
  "subseq (map position (fst (predict w text g))) (map span (finditer w text))"
  by (rule positions_subseq)

theorem classifier_subsequence_witness:
  "map position (fst (predict ascii_word (codepoints ''ab c'') (fixed_source [0, 2]))) = [(0, 2)] \<and>
   map span (finditer ascii_word (codepoints ''ab c'')) = [(0, 2), (3, 4)] \<and>
   subseq (map position (fst (predict ascii_word (codepoints ''ab c'') (fixed_source [0, 2]))))
     (map span (finditer ascii_word (codepoints ''ab c'')))"
proof -
  have "map position (fst (predict ascii_word (codepoints ''ab c'') (fixed_source [0, 2]))) = [(0, 2)]"
    by (simp add: out_ab_c position_def)
  moreover have "map span (finditer ascii_word (codepoints ''ab c'')) = [(0, 2), (3, 4)]"
    by (simp add: tokens_ab_c span_def)
  ultimately show ?thesis
    using classifier_subsequence [of ascii_word "codepoints ''ab c''" "fixed_source [0, 2]"]
    by blast
qed

text \<open>
  Claim C5 (coverage bounds). For every document and every realization of the random draws,
  every yielded triple \<open>(start, end, category)\<close> has \<open>0 \<le> start\<close>, \<open>start < end\<close> and
  \<open>end \<le> length document\<close>.
\<close>

theorem coverage_bounds:
  "\<forall>(a, b, c)\<in>set (fst (predict w text g)). 0 \<le> a \<and> a < b \<and> b \<le> int (length text)"
proof clarify
  fix a b c
  assume "(a, b, c) \<in> set (fst (predict w text g))"
  then obtain m where m: "m \<in> set (finditer w text)" "position (a, b, c) = span m"
    by (rule predict_position)
  from m(1) have "fst m < snd m \<and> snd m \<le> length text"
    by (rule finditer_bounds)
  with m(2) show "0 \<le> a \<and> a < b \<and> b \<le> int (length text)"
    by (auto simp: position_def span_def)
qed

theorem coverage_bounds_witness:
  "(7, 11, ''A'') \<in> set (fst (predict ascii_word (codepoints ''Is sky blue? Yes.'')
       (fixed_source [0, 2, 4, 2]))) \<and>
   (0::int) \<le> 7 \<and> (7::int) < 11 \<and> (11::int) \<le> int (length (codepoints ''Is sky blue? Yes.''))"
proof -
  have "(7, 11, ''A'') \<in> set (fst (predict ascii_word (codepoints ''Is sky blue? Yes.'')
       (fixed_source [0, 2, 4, 2])))"
    by (simp add: out_sky)
  with coverage_bounds [of ascii_word "codepoints ''Is sky blue? Yes.''" "fixed_source [0, 2, 4, 2]"]
  show ?thesis by blast
qed

text \<open>
  Claim C7 (empty input). For the empty document, and for every document without a word
  code point, \<^verbatim>\<open>predict\<close> yields the empty sequence whatever the state of the random
  source, and leaves that state as it was: no draw is made. The model of \<^verbatim>\<open>predict\<close> is a
  total function without an error value, since no statement of the source can raise on a
  string.
\<close>

theorem empty_input:
  "predict w [] g = ([], g) \<and> ((\<forall>c\<in>set text. \<not> w c) \<longrightarrow> predict w text g = ([], g))"
  by (simp add: predict_def finditer_no_word)


theorem empty_input_witness:
  "predict ascii_word [] (sconst 0) = ([], sconst 0) \<and>
   (\<forall>g. predict ascii_word (codepoints ''? !'') g = ([], g))"
  using empty_input [of ascii_word _ "codepoints ''? !''"]
  by (simp add: codepoints_def ascii_word_def)

text \<open>
  Claim C8 (determinism under fixed randomness). For every document, two runs of
  \<^verbatim>\<open>predict\<close> in which the random source produces the same sequence of draws, one draw per
  token, yield the same triples in the same order.
\<close>

theorem determinism:
  assumes "\<forall>i<length (finditer w text). drawn g i = drawn g' i"
  shows "fst (predict w text g) = fst (predict w text g')"
proof -
  have "draws g (length (finditer w text)) = draws g' (length (finditer w text))"
    using assms by (simp add: draws_def)
  then show ?thesis by (simp add: predict_eq)
qed

theorem determinism_witness:
  "fst (predict ascii_word (codepoints ''ab c'') (fixed_source [0, 2])) =
     fst (predict ascii_word (codepoints ''ab c'') (fixed_source [3, 5])) \<and>
   fst (predict ascii_word (codepoints ''ab c'') (fixed_source [3, 5])) = [(0, 2, ''Q'')] \<and>
   shd (fixed_source [0, 2]) \<noteq> shd (fixed_source [3, 5])"
proof -
  have "\<forall>i<length (finditer ascii_word (codepoints ''ab c'')).
          drawn (fixed_source [0, 2]) i = drawn (fixed_source [3, 5]) i"
    by (simp add: tokens_ab_c drawn_fixed less_Suc_eq numeral_2_eq_2)
  then have "fst (predict ascii_word (codepoints ''ab c'') (fixed_source [0, 2])) =
     fst (predict ascii_word (codepoints ''ab c'') (fixed_source [3, 5]))"
    by (rule determinism)
  moreover have "shd (fixed_source [0, 2]) \<noteq> shd (fixed_source [3, 5])"
    by (simp add: fixed_source_def)
  ultimately show ?thesis by (simp add: out_ab_c)
qed

text \<open>
  Claim C9 (per-span independence). For every document, the span of token \<open>i\<close> is yielded
  with label \<open>c\<close> exactly when draw \<open>i\<close> is \<open>c\<close> and \<open>c\<close> is \<^verbatim>\<open>"Q"\<close> or \<^verbatim>\<open>"A"\<close>: the outcome of
  token \<open>i\<close> is a function of draw \<open>i\<close> alone, so a second run that agrees on draw \<open>i\<close> gives
  token \<open>i\<close> the same outcome whatever its other draws are. Exactly one draw is consumed per
  token, emitted or not.
\<close>

theorem per_span_independence:
  assumes "i < length (finditer w text)" and "span (finditer w text ! i) = (a, b)"
  shows "((a, b, c) \<in> set (fst (predict w text g)) \<longleftrightarrow> c = drawn g i \<and> (c = ''Q'' \<or> c = ''A'')) \<and>
         (drawn g' i = drawn g i \<longrightarrow>
            ((a, b, c) \<in> set (fst (predict w text g')) \<longleftrightarrow> (a, b, c) \<in> set (fst (predict w text g)))) \<and>
         snd (predict w text g) = sdrop (length (finditer w text)) g"
  using predict_mem_iff [OF assms(1), of c g] predict_mem_iff [OF assms(1), of c g'] assms(2)
  by (simp add: predict_eq)

theorem per_span_independence_witness:
  "(0, 2, ''Q'') \<in> set (fst (predict ascii_word (codepoints ''ab c'') (fixed_source [0, 2]))) \<and>
   (0, 2, ''Q'') \<in> set (fst (predict ascii_word (codepoints ''ab c'') (fixed_source [0, 4]))) \<and>
   drawn (fixed_source [0, 2]) 1 \<noteq> drawn (fixed_source [0, 4]) 1 \<and>
   snd (predict ascii_word (codepoints ''ab c'') (fixed_source [0, 4])) = sconst 0"
proof -
  let ?g = "fixed_source [0, 2]"
  let ?g' = "fixed_source [0, 4]"
  let ?d = "codepoints ''ab c''"
  have i: "0 < length (finditer ascii_word ?d)"
    by (simp add: tokens_ab_c)
  have s: "span (finditer ascii_word ?d ! 0) = (0, 2)"
    by (simp add: tokens_ab_c span_def)
  have d: "drawn ?g' 0 = drawn ?g 0" "drawn ?g 1 \<noteq> drawn ?g' 1"
    by (simp_all add: drawn_fixed)
  have m: "(0, 2, ''Q'') \<in> set (fst (predict ascii_word ?d ?g))"
    by (simp add: out_ab_c)
  have e: "sdrop (length (finditer ascii_word ?d)) ?g' = sconst 0"
    using sdrop_fixed [of "[0, 4]"] by (simp add: tokens_ab_c)
  from per_span_independence [OF i s, of "''Q''" ?g ?g'] d(1) m
  have "(0, 2, ''Q'') \<in> set (fst (predict ascii_word ?d ?g'))"
    by blast
  moreover from per_span_independence [OF i s, of "''Q''" ?g' ?g] e
  have "snd (predict ascii_word ?d ?g') = sconst 0"
    by simp
  ultimately show ?thesis using m d(2) by blast
qed

text \<open>
  Claim C10 (emitted-span disjointness). For every document and every realization of the
  random draws, the yielded spans appear in strictly increasing order of position, each
  starts at or after the end of every earlier one, so they are pairwise disjoint as
  half-open intervals, and no span is yielded twice.
\<close>

theorem emitted_disjoint:
  "sorted_wrt (\<lambda>s t. fst s < fst t \<and> snd s \<le> fst t \<and> {fst s..<snd s} \<inter> {fst t..<snd t} = {})
     (map position (fst (predict w text g))) \<and>
   distinct (map position (fst (predict w text g)))"
proof -
  let ?R = "\<lambda>s t :: int \<times> int. fst s < fst t \<and> snd s \<le> fst t \<and> {fst s..<snd s} \<inter> {fst t..<snd t} = {}"
  have "sorted_wrt (\<lambda>p q. ?R (span p) (span q)) (finditer w text)"
    using finditer_sorted [of w "text"]
  proof (rule sorted_wrt_mono_rel [rotated])
    fix p q
    assume "p \<in> set (finditer w text)" "q \<in> set (finditer w text)" "snd p \<le> fst q"
    then show "?R (span p) (span q)"
      using finditer_bounds [of p w "text"] by (auto simp: span_def)
  qed
  then have "sorted_wrt ?R (map span (finditer w text))"
    by (simp add: sorted_wrt_map)
  with positions_subseq have srt: "sorted_wrt ?R (map position (fst (predict w text g)))"
    by (rule subseq_sorted_wrt)
  then have "distinct (map position (fst (predict w text g)))"
    by (rule sorted_wrt_irrefl_distinct) simp
  with srt show ?thesis by simp
qed

theorem emitted_disjoint_witness:
  "map position (fst (predict ascii_word (codepoints ''Is sky blue? Yes.'')
       (fixed_source [0, 2, 4, 2]))) = [(0, 2), (7, 11)] \<and>
   sorted_wrt (\<lambda>s t. fst s < fst t \<and> snd s \<le> fst t \<and> {fst s..<snd s} \<inter> {fst t..<snd t} = {})
     (map position (fst (predict ascii_word (codepoints ''Is sky blue? Yes.'')
       (fixed_source [0, 2, 4, 2])))) \<and>
   distinct (map position (fst (predict ascii_word (codepoints ''Is sky blue? Yes.'')
       (fixed_source [0, 2, 4, 2]))))"
proof -
  have "map position (fst (predict ascii_word (codepoints ''Is sky blue? Yes.'')
       (fixed_source [0, 2, 4, 2]))) = [(0, 2), (7, 11)]"
    by (simp add: out_sky position_def)
  with emitted_disjoint [of ascii_word "codepoints ''Is sky blue? Yes.''" "fixed_source [0, 2, 4, 2]"]
  show ?thesis by blast
qed

end
